theory Spec2Isabelle
  imports Main
begin

section \<open>Data model\<close>

text \<open>
  The program is \<^verbatim>\<open>media-site/assets/app.js\<close>: a gallery page over the GitHub
  Contents API. Strings are byte strings; \<^verbatim>\<open>toLowerCase\<close> is modelled on ASCII
  letters and \<^verbatim>\<open>trim\<close> on ASCII white space. The two caches are JavaScript objects
  used as dictionaries and are modelled as maps; keys that collide with members
  of \<^verbatim>\<open>Object.prototype\<close> are outside the model.
\<close>

text \<open>An element of a directory listing as the Contents API returns it. The
  field \<open>etype\<close> is the JSON field \<^verbatim>\<open>type\<close>, a string the code compares with
  \<^verbatim>\<open>'file'\<close> and \<^verbatim>\<open>'dir'\<close>.\<close>

record entry =
  name :: string
  path :: string
  etype :: string

type_synonym listing = "entry list"

text \<open>The object pushed onto \<^verbatim>\<open>media\<close> by \<^verbatim>\<open>showMediaForPath\<close>; \<open>poster\<close> is
  \<^verbatim>\<open>null\<close> (\<open>None\<close>) or a URL.\<close>

record media_item =
  m_name :: string
  m_path :: string
  m_type :: string
  src :: string
  poster :: "string option"

text \<open>What \<^verbatim>\<open>fetch\<close> resolves to for an API request: the status, the parsed JSON
  body of a successful answer (a listing, by the contract of the API) and the
  raw text.\<close>

record response =
  status :: nat
  body :: listing
  text_of :: string

datatype error = Unavailable | FetchFailed | TypeError

text \<open>The effects of the network client: the URLs requested, in order, the
  delays slept, and the lines written by \<^verbatim>\<open>console.error\<close>.\<close>

record io =
  sent :: "string list"
  waits :: "nat list"
  console :: "(nat \<times> string) list"

text \<open>The remote side: the answer to the request sent when \<open>n\<close> requests have
  been sent before it; \<open>None\<close> is a rejected \<^verbatim>\<open>fetch\<close>.\<close>

type_synonym api = "nat \<Rightarrow> string \<Rightarrow> response option"

section \<open>Strings\<close>

definition OWNER :: string where "OWNER = ''DavidSciMeow''"
definition REPO :: string where "REPO = ''DavidSciMeow''"
definition REF :: string where "REF = ''main''"

text \<open>\<^verbatim>\<open>s.split(c)\<close> for a one-character separator: never the empty array.\<close>

fun split_on :: "char \<Rightarrow> string \<Rightarrow> string list" where
  "split_on c [] = [[]]"
| "split_on c (x # xs) =
     (if x = c then [] # split_on c xs
      else (case split_on c xs of
              [] \<Rightarrow> [[x]]
            | w # ws \<Rightarrow> (x # w) # ws))"

text \<open>\<^verbatim>\<open>Array.prototype.pop\<close>: the last element, \<^verbatim>\<open>undefined\<close> on an empty array.\<close>

definition pop :: "'a list \<Rightarrow> 'a option" where
  "pop xs = (case rev xs of [] \<Rightarrow> None | x # _ \<Rightarrow> Some x)"

definition upper_letters :: string where
  "upper_letters = ''ABCDEFGHIJKLMNOPQRSTUVWXYZ''"

definition lower_letters :: string where
  "lower_letters = ''abcdefghijklmnopqrstuvwxyz''"

definition lower_char :: "char \<Rightarrow> char" where
  "lower_char c =
     (case map_of (zip upper_letters lower_letters) c of
        Some d \<Rightarrow> d
      | None \<Rightarrow> c)"

definition toLowerCase :: "string \<Rightarrow> string" where
  "toLowerCase s = map lower_char s"

text \<open>The white space removed by \<^verbatim>\<open>trim\<close>: tab, line feed, vertical tab, form
  feed, carriage return, space.\<close>

definition is_space :: "char \<Rightarrow> bool" where
  "is_space c = (c \<in> set [CHR 0x09, CHR 0x0A, CHR 0x0B, CHR 0x0C, CHR 0x0D, CHR '' ''])"

definition trim :: "string \<Rightarrow> string" where
  "trim s = rev (dropWhile is_space (rev (dropWhile is_space s)))"

fun starts_with :: "string \<Rightarrow> string \<Rightarrow> bool" where
  "starts_with s [] = True"
| "starts_with [] (p # ps) = False"
| "starts_with (c # cs) (p # ps) = (c = p \<and> starts_with cs ps)"

text \<open>\<^verbatim>\<open>s.includes(q)\<close>: \<open>q\<close> occurs in \<open>s\<close> as a contiguous substring.\<close>

fun includes_str :: "string \<Rightarrow> string \<Rightarrow> bool" where
  "includes_str [] q = (q = [])"
| "includes_str (c # cs) q = (starts_with (c # cs) q \<or> includes_str cs q)"

text \<open>\<^verbatim>\<open>s.replace(pat, '')\<close> with a string pattern: the first occurrence of
  \<open>pat\<close> is removed, and \<open>s\<close> is unchanged when there is none.\<close>

fun remove_first :: "string \<Rightarrow> string \<Rightarrow> string" where
  "remove_first pat [] = []"
| "remove_first pat (c # cs) =
     (if starts_with (c # cs) pat then drop (length pat) (c # cs)
      else c # remove_first pat cs)"

text \<open>\<^verbatim>\<open>name.replace(/\.[^/.]+$/, '')\<close>: the pattern is a dot followed, up to the
  end of the string, by one or more characters that are neither a slash nor a
  dot. Such a match can only start at the last dot.\<close>

definition strip_ext :: "string \<Rightarrow> string" where
  "strip_ext nm =
     (let suffix = rev (takeWhile (\<lambda>c. c \<noteq> CHR ''.'') (rev nm))
      in if CHR ''.'' \<in> set nm \<and> suffix \<noteq> [] \<and> CHR ''/'' \<notin> set suffix
         then take (length nm - length suffix - 1) nm
         else nm)"

definition apiUrl :: "string \<Rightarrow> string" where
  "apiUrl p =
     ''https://api.github.com/repos/'' @ OWNER @ ''/'' @ REPO @ ''/contents/'' @ p
       @ ''?ref='' @ REF"

definition rawUrl :: "string \<Rightarrow> string" where
  "rawUrl p =
     ''https://raw.githubusercontent.com/'' @ OWNER @ ''/'' @ REPO @ ''/'' @ REF @ ''/'' @ p"

section \<open>File classifier\<close>

text \<open>\<^verbatim>\<open>name.split('.').pop().toLowerCase()\<close>; calling \<^verbatim>\<open>toLowerCase\<close> on
  \<^verbatim>\<open>undefined\<close> would throw.\<close>

definition ext_of :: "string \<Rightarrow> error + string" where
  "ext_of nm =
     (case pop (split_on CHR ''.'' nm) of
        None \<Rightarrow> Inl TypeError
      | Some e \<Rightarrow> Inr (toLowerCase e))"

definition isMediaFile :: "string \<Rightarrow> error + bool" where
  "isMediaFile nm =
     (case ext_of nm of
        Inl e \<Rightarrow> Inl e
      | Inr ext \<Rightarrow>
          Inr (ext \<in> set [''png'', ''jpg'', ''jpeg'', ''webp'', ''gif'', ''mp4'', ''webm'', ''ogv'']))"

definition isImage :: "string \<Rightarrow> error + bool" where
  "isImage nm =
     (case ext_of nm of
        Inl e \<Rightarrow> Inl e
      | Inr ext \<Rightarrow> Inr (ext \<in> set [''png'', ''jpg'', ''jpeg'', ''webp'', ''gif'']))"

definition isVideo :: "string \<Rightarrow> error + bool" where
  "isVideo nm =
     (case ext_of nm of
        Inl e \<Rightarrow> Inl e
      | Inr ext \<Rightarrow> Inr (ext \<in> set [''mp4'', ''webm'', ''ogv'']))"

section \<open>Remote listing client\<close>

text \<open>\<^verbatim>\<open>ghFetch\<close>: the loop over \<^verbatim>\<open>attempt\<close>, started at 0. Each round sends one
  request. The function leaves the loop by \<^verbatim>\<open>return\<close> on every status but 403
  and 429, and throws after the fifth round.\<close>

function ghFetch_loop :: "api \<Rightarrow> string \<Rightarrow> nat \<Rightarrow> io \<Rightarrow> (error + listing) \<times> io" where
  "ghFetch_loop net url attempt w =
     (if attempt < 5 then
        (case net (length (sent w)) url of
           None \<Rightarrow> (Inl FetchFailed, w\<lparr>sent := sent w @ [url]\<rparr>)
         | Some res \<Rightarrow>
             if status res = 200 then (Inr (body res), w\<lparr>sent := sent w @ [url]\<rparr>)
             else if status res = 403 \<or> status res = 429 then
               ghFetch_loop net url (attempt + 1)
                 (w\<lparr>sent := sent w @ [url],
                    waits := waits w @ [2 ^ (attempt + 1) * 500]\<rparr>)
             else if status res = 404 then (Inr [], w\<lparr>sent := sent w @ [url]\<rparr>)
             else (Inr [],
                   w\<lparr>sent := sent w @ [url],
                      console := console w @ [(status res, text_of res)]\<rparr>))
      else (Inl Unavailable, w))"
  by pat_completeness auto
termination
  by (relation "measure (\<lambda>(net, url, attempt, w). 5 - attempt)") auto

definition ghFetch :: "api \<Rightarrow> string \<Rightarrow> io \<Rightarrow> (error + listing) \<times> io" where
  "ghFetch net p w = ghFetch_loop net (apiUrl p) 0 w"

section \<open>Media resolver\<close>

text \<open>The poster candidates of a listing element, in the order of the array
  \<^verbatim>\<open>['jpg','jpeg','webp','png']\<close>: the element's path without the first
  occurrence of its name, then the name without its extension, a dot and the
  extension.\<close>

definition posterCandidates :: "entry \<Rightarrow> string list" where
  "posterCandidates it =
     map (\<lambda>ext. remove_first (name it) (path it) @ strip_ext (name it) @ ''.'' @ ext)
       [''jpg'', ''jpeg'', ''webp'', ''png'']"

text \<open>The loop over the candidates: the first one that is the path of an element
  found by \<^verbatim>\<open>items.find\<close> ends the loop.\<close>

fun poster_loop :: "listing \<Rightarrow> string list \<Rightarrow> string option" where
  "poster_loop items [] = None"
| "poster_loop items (p # ps) =
     (if find (\<lambda>x. path x = p) items \<noteq> None then Some (rawUrl p)
      else poster_loop items ps)"

text \<open>The first loop of \<^verbatim>\<open>showMediaForPath\<close>, over the elements of the listing of
  the path itself; \<open>items\<close> is the whole listing, the second argument what is
  left of the iteration.\<close>

fun direct_loop :: "listing \<Rightarrow> listing \<Rightarrow> media_item list \<Rightarrow> error + media_item list" where
  "direct_loop items [] media = Inr media"
| "direct_loop items (it # rest) media =
     (if etype it = ''file'' then
        (case isMediaFile (name it) of
           Inl e \<Rightarrow> Inl e
         | Inr False \<Rightarrow> direct_loop items rest media
         | Inr True \<Rightarrow>
             (case isVideo (name it) of
                Inl e \<Rightarrow> Inl e
              | Inr v \<Rightarrow>
                  direct_loop items rest
                    (media @
                     [\<lparr>m_name = name it, m_path = path it,
                       m_type = (if v then ''video'' else ''image''),
                       src = rawUrl (path it),
                       poster = poster_loop items (posterCandidates it)\<rparr>])))
      else direct_loop items rest media)"

text \<open>The inner loop over the listing of one subfolder.\<close>

fun sub_loop :: "listing \<Rightarrow> media_item list \<Rightarrow> error + media_item list" where
  "sub_loop [] media = Inr media"
| "sub_loop (s # rest) media =
     (if etype s = ''file'' then
        (case isMediaFile (name s) of
           Inl e \<Rightarrow> Inl e
         | Inr False \<Rightarrow> sub_loop rest media
         | Inr True \<Rightarrow>
             (case isVideo (name s) of
                Inl e \<Rightarrow> Inl e
              | Inr v \<Rightarrow>
                  sub_loop rest
                    (media @
                     [\<lparr>m_name = name s, m_path = path s,
                       m_type = (if v then ''video'' else ''image''),
                       src = rawUrl (path s),
                       poster = None\<rparr>])))
      else sub_loop rest media)"

text \<open>The second loop: one \<^verbatim>\<open>ghFetch\<close> for each element of type \<^verbatim>\<open>'dir'\<close>.\<close>

fun subdirs_loop ::
  "api \<Rightarrow> listing \<Rightarrow> media_item list \<Rightarrow> io \<Rightarrow> (error + media_item list) \<times> io" where
  "subdirs_loop net [] media w = (Inr media, w)"
| "subdirs_loop net (it # rest) media w =
     (if etype it = ''dir'' then
        (case ghFetch net (path it) w of
           (Inl e, w1) \<Rightarrow> (Inl e, w1)
         | (Inr sub, w1) \<Rightarrow>
             (case sub_loop sub media of
                Inl e \<Rightarrow> (Inl e, w1)
              | Inr media1 \<Rightarrow> subdirs_loop net rest media1 w1))
      else subdirs_loop net rest media w)"

text \<open>The static manifest \<^verbatim>\<open>assets/media.json\<close>: what loading it gives when \<open>n\<close>
  requests have been sent before; \<open>None\<close> stands for every failure that the
  \<^verbatim>\<open>try\<close> block catches.\<close>

type_synonym manifest = "nat \<Rightarrow> media_item list option"

definition manifestUrl :: string where
  "manifestUrl = ''assets/media.json''"

text \<open>\<^verbatim>\<open>path || ''\<close>.\<close>

definition keyOf :: "string \<Rightarrow> string" where
  "keyOf p = (if p = [] then [] else p)"

text \<open>The part of \<^verbatim>\<open>showMediaForPath\<close> between the look-up in \<^verbatim>\<open>mediaCache\<close> and
  the store into it, in two pieces: the request for the listing with the two
  loops, and the fall-back to the manifest. It reads and writes no variable of
  the page.\<close>

definition gather :: "api \<Rightarrow> string \<Rightarrow> io \<Rightarrow> (error + media_item list) \<times> io" where
  "gather net p w =
     (case ghFetch net (keyOf p) w of
        (Inl e, w1) \<Rightarrow> (Inl e, w1)
      | (Inr items, w1) \<Rightarrow>
          (case direct_loop items items [] of
             Inl e \<Rightarrow> (Inl e, w1)
           | Inr media \<Rightarrow> subdirs_loop net items media w1))"

definition collectMedia ::
  "api \<Rightarrow> manifest \<Rightarrow> string \<Rightarrow> io \<Rightarrow> (error + media_item list) \<times> io" where
  "collectMedia net man p w =
     (case gather net p w of
        (Inl e, w2) \<Rightarrow> (Inl e, w2)
      | (Inr media, w2) \<Rightarrow>
          if media = [] then
            (Inr (case man (length (sent w2)) of
                    None \<Rightarrow> []
                  | Some demo \<Rightarrow> demo),
             w2\<lparr>sent := sent w2 @ [manifestUrl]\<rparr>)
          else (Inr media, w2))"

section \<open>Page state, gallery and search\<close>

record card =
  thumb :: string
  alt :: string
  title :: string
  badge :: string
  opens :: media_item

datatype gallery = Loading | NoMedia | Cards "card list"

datatype node = Folder string string | Leaf entry bool

text \<open>The global variables \<^verbatim>\<open>cache\<close>, \<^verbatim>\<open>mediaCache\<close> and \<^verbatim>\<open>allVisibleMedia\<close>, and
  the content of the elements \<^verbatim>\<open>currentPath\<close> and \<^verbatim>\<open>gallery\<close>.\<close>

record page =
  cache :: "string \<rightharpoonup> listing"
  mediaCache :: "string \<rightharpoonup> media_item list"
  allVisibleMedia :: "media_item list"
  currentPath :: string
  galleryEl :: gallery

text \<open>\<^verbatim>\<open>item.poster || item.src\<close>: \<^verbatim>\<open>null\<close> and the empty string are falsy.\<close>

definition card_of :: "media_item \<Rightarrow> card" where
  "card_of item =
     \<lparr>thumb =
        (if m_type item = ''video'' then
           (case poster item of
              None \<Rightarrow> src item
            | Some u \<Rightarrow> if u = [] then src item else u)
         else src item),
      alt = m_name item,
      title = m_name item,
      badge = (if m_type item = ''video'' then ''VIDEO'' else ''IMAGE''),
      opens = item\<rparr>"

definition renderGallery :: "media_item list \<Rightarrow> page \<Rightarrow> page" where
  "renderGallery list pg =
     (let pg1 = pg\<lparr>allVisibleMedia := list\<rparr>
      in if list = [] then pg1\<lparr>galleryEl := NoMedia\<rparr>
         else pg1\<lparr>galleryEl := Cards (map card_of list)\<rparr>)"

text \<open>The handler of the \<^verbatim>\<open>input\<close> event of the search box; \<open>v\<close> is
  \<^verbatim>\<open>e.target.value\<close>.\<close>

definition searchInput :: "string \<Rightarrow> page \<Rightarrow> page" where
  "searchInput v pg =
     (let q = toLowerCase (trim v)
      in if q = [] then renderGallery (allVisibleMedia pg) pg
         else renderGallery
                (filter (\<lambda>item. includes_str (toLowerCase (m_name item)) q)
                   (allVisibleMedia pg))
                pg)"

text \<open>\<^verbatim>\<open>showMediaForPath\<close> up to its first \<^verbatim>\<open>await\<close>, and from its last one on.\<close>

definition showMedia_begin :: "string \<Rightarrow> page \<Rightarrow> page" where
  "showMedia_begin p pg = pg\<lparr>currentPath := ''/'' @ p, galleryEl := Loading\<rparr>"

definition showMedia_finish :: "string \<Rightarrow> media_item list \<Rightarrow> page \<Rightarrow> page" where
  "showMedia_finish key media pg =
     renderGallery media (pg\<lparr>mediaCache := (mediaCache pg)(key \<mapsto> media)\<rparr>)"

text \<open>\<^verbatim>\<open>showMediaForPath\<close> run without interruption. The first component is the
  exception that rejects the returned promise, if any.\<close>

definition showMediaForPath ::
  "api \<Rightarrow> manifest \<Rightarrow> string \<Rightarrow> page \<times> io \<Rightarrow> error option \<times> page \<times> io" where
  "showMediaForPath net man p st =
     (let pg1 = showMedia_begin p (fst st);
          key = keyOf p
      in case mediaCache pg1 key of
           Some m \<Rightarrow> (None, renderGallery m pg1, snd st)
         | None \<Rightarrow>
             (case collectMedia net man p (snd st) of
                (Inl e, w1) \<Rightarrow> (Some e, pg1, w1)
              | (Inr media, w1) \<Rightarrow> (None, showMedia_finish key media pg1, w1)))"

section \<open>Tree\<close>

text \<open>\<^verbatim>\<open>Array.prototype.sort\<close> with a comparison function is a stable sort; \<open>le a b\<close>
  stands for \<^verbatim>\<open>a.localeCompare(b) <= 0\<close>, which depends on the locale of the
  browser.\<close>

fun insert_by :: "('a \<Rightarrow> 'a \<Rightarrow> bool) \<Rightarrow> 'a \<Rightarrow> 'a list \<Rightarrow> 'a list" where
  "insert_by le x [] = [x]"
| "insert_by le x (y # ys) = (if le x y then x # y # ys else y # insert_by le x ys)"

definition sort_by :: "('a \<Rightarrow> 'a \<Rightarrow> bool) \<Rightarrow> 'a list \<Rightarrow> 'a list" where
  "sort_by le xs = foldr (insert_by le) xs []"

fun files_loop :: "entry list \<Rightarrow> node list \<Rightarrow> error option \<times> node list" where
  "files_loop [] container = (None, container)"
| "files_loop (f # fs) container =
     (case isMediaFile (name f) of
        Inl e \<Rightarrow> (Some e, container)
      | Inr b \<Rightarrow> files_loop fs (container @ [Leaf f (\<not> b)]))"

definition renderDirListing ::
  "(string \<Rightarrow> string \<Rightarrow> bool) \<Rightarrow> listing \<Rightarrow> error option \<times> node list" where
  "renderDirListing le items =
     (let dirs = sort_by (\<lambda>a b. le (name a) (name b)) (filter (\<lambda>i. etype i = ''dir'') items);
          files = sort_by (\<lambda>a b. le (name a) (name b)) (filter (\<lambda>i. etype i = ''file'') items)
      in files_loop files (map (\<lambda>d. Folder (name d) (path d)) dirs))"

text \<open>\<^verbatim>\<open>loadAndRenderDir\<close>; the container is given and returned as the list of its
  nodes.\<close>

definition loadAndRenderDir ::
  "(string \<Rightarrow> string \<Rightarrow> bool) \<Rightarrow> api \<Rightarrow> string \<Rightarrow> node list \<Rightarrow> page \<times> io \<Rightarrow>
     error option \<times> node list \<times> page \<times> io" where
  "loadAndRenderDir le net p container st =
     (let key = keyOf p
      in case cache (fst st) key of
           Some l \<Rightarrow>
             (fst (renderDirListing le l), snd (renderDirListing le l), fst st, snd st)
         | None \<Rightarrow>
             (case ghFetch net (keyOf p) (snd st) of
                (Inl e, w1) \<Rightarrow> (Some e, container, fst st, w1)
              | (Inr items, w1) \<Rightarrow>
                  (fst (renderDirListing le items), snd (renderDirListing le items),
                   (fst st)\<lparr>cache := (cache (fst st))(key \<mapsto> items)\<rparr>, w1)))"

section \<open>Interleaved resolutions\<close>

text \<open>
  The page runs on one thread: a call of \<^verbatim>\<open>showMediaForPath\<close> runs up to its first
  \<^verbatim>\<open>await\<close>, is suspended while its requests are in flight, and runs its last two
  statements when the last of them has been answered. Between these two points it
  touches no variable of the page, so a run of the page is a sequence of events:
  a selection starts a resolution, and a resolution in flight completes with the
  list it has collected, or is abandoned when \<^verbatim>\<open>ghFetch\<close> throws.
\<close>

datatype event = Select string | Complete nat "media_item list" | Abandon nat

record session =
  view :: page
  inflight :: "string list"

fun step :: "session \<Rightarrow> event \<Rightarrow> session" where
  "step s (Select p) =
     (let pg1 = showMedia_begin p (view s)
      in case mediaCache pg1 (keyOf p) of
           Some m \<Rightarrow> s\<lparr>view := renderGallery m pg1\<rparr>
         | None \<Rightarrow> s\<lparr>view := pg1, inflight := inflight s @ [keyOf p]\<rparr>)"
| "step s (Complete i media) =
     (if i < length (inflight s) then
        s\<lparr>view := showMedia_finish (inflight s ! i) media (view s),
          inflight := take i (inflight s) @ drop (Suc i) (inflight s)\<rparr>
      else s)"
| "step s (Abandon i) =
     s\<lparr>inflight := take i (inflight s) @ drop (Suc i) (inflight s)\<rparr>"

definition run :: "session \<Rightarrow> event list \<Rightarrow> session" where
  "run s evs = foldl step s evs"

section \<open>The specification's vocabulary\<close>

text \<open>The classifier of the specification, \<open>kindOf\<close>, is realised in the code
  by the three predicates: an image, else a video, else neither.\<close>

datatype kind = Image | Video | Other

definition kindOf :: "string \<Rightarrow> error + kind" where
  "kindOf nm =
     (case isImage nm of
        Inl e \<Rightarrow> Inl e
      | Inr True \<Rightarrow> Inr Image
      | Inr False \<Rightarrow>
          (case isVideo nm of
             Inl e \<Rightarrow> Inl e
           | Inr True \<Rightarrow> Inr Video
           | Inr False \<Rightarrow> Inr Other))"

text \<open>The specification's words: the extension is the substring after the last
  dot, and the kind is read off the extension in lower case.\<close>

definition after_last_dot :: "string \<Rightarrow> string" where
  "after_last_dot nm = rev (takeWhile (\<lambda>c. c \<noteq> CHR ''.'') (rev nm))"

definition kind_of_ext :: "string \<Rightarrow> kind" where
  "kind_of_ext e =
     (if e \<in> {''png'', ''jpg'', ''jpeg'', ''webp'', ''gif''} then Image
      else if e \<in> {''mp4'', ''webm'', ''ogv''} then Video
      else Other)"

text \<open>A media file of a listing, and a subfolder of it.\<close>

definition is_media_entry :: "entry \<Rightarrow> bool" where
  "is_media_entry e =
     (etype e = ''file'' \<and> kind_of_ext (toLowerCase (after_last_dot (name e))) \<noteq> Other)"

definition is_dir :: "entry \<Rightarrow> bool" where
  "is_dir e = (etype e = ''dir'')"

definition kind_string :: "string \<Rightarrow> string" where
  "kind_string nm =
     (if kind_of_ext (toLowerCase (after_last_dot nm)) = Video then ''video'' else ''image'')"

text \<open>The first poster candidate, in the order of preference, that is the path
  of an element of the listing, whatever the type of that element.\<close>

definition first_poster :: "listing \<Rightarrow> entry \<Rightarrow> string option" where
  "first_poster items it =
     map_option rawUrl (find (\<lambda>c. c \<in> path ` set items) (posterCandidates it))"

definition direct_item :: "listing \<Rightarrow> entry \<Rightarrow> media_item" where
  "direct_item items it =
     \<lparr>m_name = name it, m_path = path it, m_type = kind_string (name it),
      src = rawUrl (path it), poster = first_poster items it\<rparr>"

definition sub_item :: "entry \<Rightarrow> media_item" where
  "sub_item s =
     \<lparr>m_name = name s, m_path = path s, m_type = kind_string (name s),
      src = rawUrl (path s), poster = None\<rparr>"

text \<open>The media set of a folder of a repository \<open>tree\<close>, which gives the listing
  of every path: the media files of the folder in the order of its listing, then
  those of each of its subfolders, subfolder after subfolder.\<close>

definition media_set :: "(string \<Rightarrow> listing) \<Rightarrow> string \<Rightarrow> media_item list" where
  "media_set tree p =
     map (direct_item (tree p)) (filter is_media_entry (tree p)) @
     concat (map (\<lambda>d. map sub_item (filter is_media_entry (tree (path d))))
               (filter is_dir (tree p)))"

text \<open>The remote client answers a request for \<open>q\<close> with the listing \<open>l\<close>,
  whatever has been sent before.\<close>

definition lists :: "api \<Rightarrow> string \<Rightarrow> listing \<Rightarrow> bool" where
  "lists net q l = (\<forall>w. fst (ghFetch net q w) = Inr l)"

text \<open>The next \<open>k\<close> answers to requests for \<open>url\<close>, from request number \<open>n\<close> on,
  are rate-limit answers.\<close>

definition throttled :: "api \<Rightarrow> string \<Rightarrow> nat \<Rightarrow> nat \<Rightarrow> bool" where
  "throttled net url n k =
     (\<forall>i<k. case net (n + i) url of
              None \<Rightarrow> False
            | Some r \<Rightarrow> status r = 403 \<or> status r = 429)"


section \<open>Example inputs\<close>

definition w0 :: io where
  "w0 = \<lparr>sent = [], waits = [], console = []\<rparr>"

definition busy :: response where
  "busy = \<lparr>status = 429, body = [], text_of = ''slow down''\<rparr>"

definition a_png :: entry where
  "a_png = \<lparr>name = ''a.png'', path = ''a.png'', etype = ''file''\<rparr>"

text \<open>Three rate-limit answers, then the listing; rate-limit answers only; two
  rate-limit answers, then a server error.\<close>

definition net_a :: api where
  "net_a = (\<lambda>n url. if n < 3 then Some busy
                     else Some \<lparr>status = 200, body = [a_png], text_of = []\<rparr>)"

definition net_b :: api where
  "net_b = (\<lambda>n url. Some busy)"

definition net_c :: api where
  "net_c = (\<lambda>n url. if n < 2 then Some busy
                     else Some \<lparr>status = 500, body = [], text_of = ''oops''\<rparr>)"

definition pg0 :: page where
  "pg0 = \<lparr>cache = Map.empty, mediaCache = Map.empty, allVisibleMedia = [],
          currentPath = [], galleryEl = Loading\<rparr>"

text \<open>A server that answers every request for a path of the table with the
  listing the table gives, and every other request with status 404; the tree it
  serves; a manifest that cannot be loaded.\<close>

definition static_net :: "(string \<times> listing) list \<Rightarrow> api" where
  "static_net tbl =
     (\<lambda>n url. case map_of (map (\<lambda>(q, l). (apiUrl q, l)) tbl) url of
                 Some l \<Rightarrow> Some \<lparr>status = 200, body = l, text_of = []\<rparr>
               | None \<Rightarrow> Some \<lparr>status = 404, body = [], text_of = ''Not Found''\<rparr>)"

definition tree_of :: "(string \<times> listing) list \<Rightarrow> string \<Rightarrow> listing" where
  "tree_of tbl q = (case map_of tbl q of Some l \<Rightarrow> l | None \<Rightarrow> [])"

definition man0 :: manifest where
  "man0 = (\<lambda>n. None)"

definition sub_dir :: entry where
  "sub_dir = \<lparr>name = ''sub'', path = ''sub'', etype = ''dir''\<rparr>"

definition sub_b_png :: entry where
  "sub_b_png = \<lparr>name = ''b.png'', path = ''sub/b.png'', etype = ''file''\<rparr>"

definition repo1 :: "(string \<times> listing) list" where
  "repo1 = [('''', [a_png, sub_dir]), (''sub'', [sub_b_png])]"

text \<open>A folder without media, with a subfolder that is empty, and a manifest of
  two records.\<close>

definition readme :: entry where
  "readme = \<lparr>name = ''readme'', path = ''docs/readme'', etype = ''file''\<rparr>"

definition empty_dir :: entry where
  "empty_dir = \<lparr>name = ''old'', path = ''docs/old'', etype = ''dir''\<rparr>"

definition repo2 :: "(string \<times> listing) list" where
  "repo2 = [(''docs'', [readme, empty_dir]), (''docs/old'', [])]"

definition demo_item :: media_item where
  "demo_item = \<lparr>m_name = ''Demo'', m_path = ''demo/one.png'', m_type = ''image'',
                 src = ''assets/demo/one.png'', poster = None\<rparr>"

definition demo_clip :: media_item where
  "demo_clip = \<lparr>m_name = ''Clip'', m_path = ''demo/two.mp4'', m_type = ''video'',
                 src = ''assets/demo/two.mp4'', poster = Some ''assets/demo/two.jpg''\<rparr>"

definition man1 :: manifest where
  "man1 = (\<lambda>n. Some [demo_item, demo_clip])"

text \<open>A video with a picture of the same base name and a folder named like a
  picture; a root folder that holds one picture.\<close>

definition clip_mp4 :: entry where
  "clip_mp4 = \<lparr>name = ''clip.mp4'', path = ''clip.mp4'', etype = ''file''\<rparr>"

definition clip_jpg :: entry where
  "clip_jpg = \<lparr>name = ''clip.jpg'', path = ''clip.jpg'', etype = ''file''\<rparr>"

definition clip_png_dir :: entry where
  "clip_png_dir = \<lparr>name = ''clip.png'', path = ''clip.png'', etype = ''dir''\<rparr>"

definition repo3 :: "(string \<times> listing) list" where
  "repo3 = [('''', [a_png])]"

text \<open>A folder whose listing changes after the first request; a page whose
  listing cache holds that folder, and one whose media cache holds it.\<close>

definition pics_a :: entry where
  "pics_a = \<lparr>name = ''a.png'', path = ''pics/a.png'', etype = ''file''\<rparr>"




definition pg1 :: page where
  "pg1 = pg0\<lparr>cache := [''pics'' \<mapsto> [pics_a]]\<rparr>"


text \<open>The base list of the search example; two folders with one picture each
  and the lists resolved for them.\<close>

definition cat_png :: media_item where
  "cat_png = \<lparr>m_name = ''cat.png'', m_path = ''cat.png'', m_type = ''image'',
               src = rawUrl ''cat.png'', poster = None\<rparr>"

definition dog_mp4 :: media_item where
  "dog_mp4 = \<lparr>m_name = ''dog.mp4'', m_path = ''dog.mp4'', m_type = ''video'',
               src = rawUrl ''dog.mp4'', poster = None\<rparr>"

definition s0 :: session where
  "s0 = \<lparr>view = pg0, inflight = []\<rparr>"

definition x_png :: entry where
  "x_png = \<lparr>name = ''x.png'', path = ''a/x.png'', etype = ''file''\<rparr>"

definition y_png :: entry where
  "y_png = \<lparr>name = ''y.png'', path = ''b/y.png'', etype = ''file''\<rparr>"

definition repo4 :: "(string \<times> listing) list" where
  "repo4 = [(''a'', [x_png]), (''b'', [y_png])]"

definition media_a :: "media_item list" where
  "media_a = [\<lparr>m_name = ''x.png'', m_path = ''a/x.png'', m_type = ''image'',
                src = rawUrl ''a/x.png'', poster = Some (rawUrl ''a/x.png'')\<rparr>]"

definition media_b :: "media_item list" where
  "media_b = [\<lparr>m_name = ''y.png'', m_path = ''b/y.png'', m_type = ''image'',
                src = rawUrl ''b/y.png'', poster = Some (rawUrl ''b/y.png'')\<rparr>]"


section \<open>The remote listing client: retries and degraded answers\<close>

declare ghFetch_loop.simps [simp del]

lemma throttled_0 [simp]: "throttled net url n 0"
  by (simp add: throttled_def)

lemma throttled_Suc:
  "throttled net url n (Suc k) \<longleftrightarrow>
     (\<exists>r. net n url = Some r \<and> (status r = 403 \<or> status r = 429)) \<and>
     throttled net url (Suc n) k"
proof
  assume h: "throttled net url n (Suc k)"
  from h have "case net (n + 0) url of None \<Rightarrow> False | Some r \<Rightarrow> status r = 403 \<or> status r = 429"
    unfolding throttled_def by blast
  then have a: "\<exists>r. net n url = Some r \<and> (status r = 403 \<or> status r = 429)"
    by (simp split: option.splits)
  have "throttled net url (Suc n) k"
    unfolding throttled_def
  proof (intro allI impI)
    fix i assume "i < k"
    then have "Suc i < Suc k" by simp
    with h have "case net (n + Suc i) url of None \<Rightarrow> False | Some r \<Rightarrow> status r = 403 \<or> status r = 429"
      unfolding throttled_def by blast
    then show "case net (Suc n + i) url of None \<Rightarrow> False | Some r \<Rightarrow> status r = 403 \<or> status r = 429"
      by simp
  qed
  with a show "(\<exists>r. net n url = Some r \<and> (status r = 403 \<or> status r = 429)) \<and>
     throttled net url (Suc n) k" ..
next
  assume h: "(\<exists>r. net n url = Some r \<and> (status r = 403 \<or> status r = 429)) \<and>
     throttled net url (Suc n) k"
  show "throttled net url n (Suc k)"
    unfolding throttled_def
  proof (intro allI impI)
    fix i assume i: "i < Suc k"
    show "case net (n + i) url of None \<Rightarrow> False | Some r \<Rightarrow> status r = 403 \<or> status r = 429"
    proof (cases i)
      case 0
      with h show ?thesis by auto
    next
      case (Suc j)
      with i have "j < k" by simp
      with h have "case net (Suc n + j) url of None \<Rightarrow> False | Some r \<Rightarrow> status r = 403 \<or> status r = 429"
        unfolding throttled_def by blast
      with Suc show ?thesis by simp
    qed
  qed
qed

text \<open>After \<open>k\<close> rate-limit answers the loop is \<open>k\<close> rounds further, has sent \<open>k\<close>
  requests and has slept \<open>k\<close> times, each time twice as long as before.\<close>

lemma ghFetch_loop_throttled:
  "throttled net url (length (sent w)) k \<Longrightarrow> attempt + k \<le> 5 \<Longrightarrow>
   ghFetch_loop net url attempt w =
   ghFetch_loop net url (attempt + k)
     (w\<lparr>sent := sent w @ replicate k url,
        waits := waits w @ map (\<lambda>a. 2 ^ a * 500) [attempt + 1 ..< attempt + k + 1]\<rparr>)"
proof (induction k arbitrary: attempt w)
  case 0
  then show ?case by simp
next
  case (Suc k)
  from Suc.prems(1) obtain r where r: "net (length (sent w)) url = Some r"
      "status r = 403 \<or> status r = 429"
    and rest: "throttled net url (Suc (length (sent w))) k"
    by (auto simp: throttled_Suc)
  let ?w1 = "w\<lparr>sent := sent w @ [url], waits := waits w @ [2 ^ (attempt + 1) * 500]\<rparr>"
  from Suc.prems(2) have lt: "attempt < 5" by simp
  have one: "ghFetch_loop net url attempt w = ghFetch_loop net url (attempt + 1) ?w1"
    using r lt by (subst ghFetch_loop.simps) auto
  have rest': "throttled net url (length (sent ?w1)) k"
    using rest by simp
  have le: "(attempt + 1) + k \<le> 5" using Suc.prems(2) by simp
  have ws: "[attempt + 1 ..< attempt + Suc k + 1] =
      (attempt + 1) # [attempt + 1 + 1 ..< attempt + 1 + k + 1]"
    by (simp add: upt_conv_Cons)
  show ?case
    unfolding one Suc.IH [OF rest' le] ws
    by (simp add: replicate_append_same)
qed

lemma ghFetch_loop_answer:
  "attempt < 5 \<Longrightarrow> net (length (sent w)) url = Some r \<Longrightarrow>
   status r \<noteq> 403 \<Longrightarrow> status r \<noteq> 429 \<Longrightarrow>
   ghFetch_loop net url attempt w =
     (if status r = 200 then (Inr (body r), w\<lparr>sent := sent w @ [url]\<rparr>)
      else if status r = 404 then (Inr [], w\<lparr>sent := sent w @ [url]\<rparr>)
      else (Inr [], w\<lparr>sent := sent w @ [url],
                      console := console w @ [(status r, text_of r)]\<rparr>))"
  by (subst ghFetch_loop.simps) simp

lemma ghFetch_loop_exhausted: "ghFetch_loop net url 5 w = (Inl Unavailable, w)"
  by (subst ghFetch_loop.simps) simp

lemma upt_1_4: "[0 + 1 ..< 0 + 3 + 1] = [1, 2, 3::nat]"
  by code_simp

lemma upt_1_6: "[0 + 1 ..< 0 + 5 + 1] = [1, 2, 3, 4, 5::nat]"
  by code_simp

lemma replicate_3_1: "replicate 3 u @ [u] = replicate 4 u"
  by (simp add: numeral_eq_Suc)

text \<open>
  Claim C5. When the next three answers to the request are rate-limit answers
  (status 403 or 429) and the fourth is a success, \<open>ghFetch\<close> sends exactly four
  requests and returns the body of the fourth answer as it is. When the next five
  answers are rate-limit answers, it sends exactly five requests and then fails
  with \<open>Unavailable\<close>. The delays slept are part of the result.
\<close>

theorem ghFetch_retry:
  "(throttled net (apiUrl p) (length (sent w)) 3 \<and>
    net (length (sent w) + 3) (apiUrl p) = Some r \<and> status r = 200 \<longrightarrow>
      ghFetch net p w =
        (Inr (body r),
         w\<lparr>sent := sent w @ replicate 4 (apiUrl p),
            waits := waits w @ [1000, 2000, 4000]\<rparr>)) \<and>
   (throttled net (apiUrl p) (length (sent w)) 5 \<longrightarrow>
      ghFetch net p w =
        (Inl Unavailable,
         w\<lparr>sent := sent w @ replicate 5 (apiUrl p),
            waits := waits w @ [1000, 2000, 4000, 8000, 16000]\<rparr>))"
proof (intro conjI impI)
  assume h: "throttled net (apiUrl p) (length (sent w)) 3 \<and>
    net (length (sent w) + 3) (apiUrl p) = Some r \<and> status r = 200"
  let ?w3 = "w\<lparr>sent := sent w @ replicate 3 (apiUrl p),
        waits := waits w @ map (\<lambda>a. 2 ^ a * 500) [0 + 1 ..< 0 + 3 + 1]\<rparr>"
  have "ghFetch_loop net (apiUrl p) 0 w = ghFetch_loop net (apiUrl p) (0 + 3) ?w3"
    using h by (intro ghFetch_loop_throttled) simp_all
  also have "\<dots> = (Inr (body r), ?w3\<lparr>sent := sent ?w3 @ [apiUrl p]\<rparr>)"
    using h by (subst ghFetch_loop_answer [where r = r]) simp_all
  finally show "ghFetch net p w =
        (Inr (body r),
         w\<lparr>sent := sent w @ replicate 4 (apiUrl p),
            waits := waits w @ [1000, 2000, 4000]\<rparr>)"
    unfolding upt_1_4 by (simp add: ghFetch_def replicate_3_1)
next
  assume h: "throttled net (apiUrl p) (length (sent w)) 5"
  let ?w5 = "w\<lparr>sent := sent w @ replicate 5 (apiUrl p),
        waits := waits w @ map (\<lambda>a. 2 ^ a * 500) [0 + 1 ..< 0 + 5 + 1]\<rparr>"
  have "ghFetch_loop net (apiUrl p) 0 w = ghFetch_loop net (apiUrl p) (0 + 5) ?w5"
    using h by (intro ghFetch_loop_throttled) simp_all
  also have "\<dots> = (Inl Unavailable, ?w5)"
    by (simp add: ghFetch_loop_exhausted)
  finally show "ghFetch net p w =
        (Inl Unavailable,
         w\<lparr>sent := sent w @ replicate 5 (apiUrl p),
            waits := waits w @ [1000, 2000, 4000, 8000, 16000]\<rparr>)"
    unfolding upt_1_6 by (simp add: ghFetch_def)
qed

theorem ghFetch_retry_witness:
  "throttled net_a (apiUrl ''pics'') (length (sent w0)) 3 \<and>
   net_a (length (sent w0) + 3) (apiUrl ''pics'') =
     Some \<lparr>status = 200, body = [a_png], text_of = []\<rparr> \<and>
   ghFetch net_a ''pics'' w0 =
     (Inr [a_png],
      \<lparr>sent = replicate 4 (apiUrl ''pics''), waits = [1000, 2000, 4000], console = []\<rparr>) \<and>
   throttled net_b (apiUrl ''pics'') (length (sent w0)) 5 \<and>
   ghFetch net_b ''pics'' w0 =
     (Inl Unavailable,
      \<lparr>sent = replicate 5 (apiUrl ''pics''), waits = [1000, 2000, 4000, 8000, 16000],
       console = []\<rparr>)"
proof -
  have a: "throttled net_a (apiUrl ''pics'') (length (sent w0)) 3"
    by (simp add: throttled_def net_a_def busy_def w0_def)
  have b: "net_a (length (sent w0) + 3) (apiUrl ''pics'') =
     Some \<lparr>status = 200, body = [a_png], text_of = []\<rparr>"
    by (simp add: net_a_def w0_def)
  have c: "throttled net_b (apiUrl ''pics'') (length (sent w0)) 5"
    by (simp add: throttled_def net_b_def busy_def)
  from a b c
    ghFetch_retry [of net_a "''pics''" w0 "\<lparr>status = 200, body = [a_png], text_of = []\<rparr>"]
    ghFetch_retry [of net_b "''pics''" w0]
  show ?thesis by (simp add: w0_def)
qed

text \<open>
  Claim C6. Whichever of its requests is answered with status 404, \<open>ghFetch\<close>
  returns the empty listing and writes nothing to the console; on any other
  status that is neither 200 nor a rate-limit status it writes the status and
  the text of the answer to the console and returns the empty listing. In both
  cases it does not fail and sends no further request.
\<close>

theorem ghFetch_degrades:
  assumes "k < 5"
    and "throttled net (apiUrl p) (length (sent w)) k"
    and "net (length (sent w) + k) (apiUrl p) = Some r"
    and "status r \<noteq> 200" and "status r \<noteq> 403" and "status r \<noteq> 429"
  shows "fst (ghFetch net p w) = Inr [] \<and>
         sent (snd (ghFetch net p w)) = sent w @ replicate (Suc k) (apiUrl p) \<and>
         console (snd (ghFetch net p w)) =
           (if status r = 404 then console w else console w @ [(status r, text_of r)])"
proof -
  let ?wk = "w\<lparr>sent := sent w @ replicate k (apiUrl p),
        waits := waits w @ map (\<lambda>a. 2 ^ a * 500) [0 + 1 ..< 0 + k + 1]\<rparr>"
  have "ghFetch_loop net (apiUrl p) 0 w = ghFetch_loop net (apiUrl p) (0 + k) ?wk"
    using assms(1,2) by (intro ghFetch_loop_throttled) simp_all
  also have "\<dots> =
     (if status r = 200 then (Inr (body r), ?wk\<lparr>sent := sent ?wk @ [apiUrl p]\<rparr>)
      else if status r = 404 then (Inr [], ?wk\<lparr>sent := sent ?wk @ [apiUrl p]\<rparr>)
      else (Inr [], ?wk\<lparr>sent := sent ?wk @ [apiUrl p],
                         console := console ?wk @ [(status r, text_of r)]\<rparr>))"
    using assms by (intro ghFetch_loop_answer) simp_all
  finally show ?thesis
    using assms(4) by (simp add: ghFetch_def replicate_append_same)
qed

theorem ghFetch_degrades_witness:
  "(2::nat) < 5 \<and> throttled net_c (apiUrl ''pics'') (length (sent w0)) 2 \<and>
   fst (ghFetch net_c ''pics'' w0) = Inr [] \<and>
   sent (snd (ghFetch net_c ''pics'' w0)) = replicate 3 (apiUrl ''pics'') \<and>
   console (snd (ghFetch net_c ''pics'' w0)) = [(500, ''oops'')]"
proof -
  have a: "throttled net_c (apiUrl ''pics'') (length (sent w0)) 2"
    by (simp add: throttled_def net_c_def busy_def w0_def)
  have b: "net_c (length (sent w0) + 2) (apiUrl ''pics'') =
      Some \<lparr>status = 500, body = [], text_of = ''oops''\<rparr>"
    by (simp add: net_c_def w0_def)
  from a ghFetch_degrades [OF _ a b] show ?thesis
    by (simp add: w0_def numeral_eq_Suc)
qed

section \<open>The file classifier\<close>

lemma split_on_not_Nil [simp]: "split_on c s \<noteq> []"
  by (induction s) (auto split: list.splits)

lemma split_on_no_sep: "c \<notin> set s \<Longrightarrow> split_on c s = [s]"
  by (induction s) auto

lemma split_on_sep: "c \<in> set s \<Longrightarrow> \<exists>w v vs. split_on c s = w # v # vs"
proof (induction s)
  case Nil
  then show ?case by simp
next
  case (Cons x xs)
  show ?case
  proof (cases "x = c")
    case True
    obtain v vs where "split_on c xs = v # vs"
      using split_on_not_Nil [of c xs] by (cases "split_on c xs") auto
    with True show ?thesis by simp
  next
    case False
    with Cons.prems have "c \<in> set xs" by simp
    from Cons.IH [OF this] obtain w v vs where "split_on c xs = w # v # vs" by blast
    with False show ?thesis by simp
  qed
qed

lemma last_split_on: "last (split_on c s) = rev (takeWhile (\<lambda>x. x \<noteq> c) (rev s))"
proof (induction s)
  case Nil
  then show ?case by simp
next
  case (Cons x xs)
  show ?case
  proof (cases "c \<in> set xs")
    case True
    from split_on_sep [OF True] obtain w v vs where sp: "split_on c xs = w # v # vs" by blast
    have "last (split_on c (x # xs)) = last (split_on c xs)"
      using sp by simp
    moreover have "takeWhile (\<lambda>x. x \<noteq> c) (rev xs @ [x]) = takeWhile (\<lambda>x. x \<noteq> c) (rev xs)"
      using True by (simp add: takeWhile_append1)
    ultimately show ?thesis using Cons.IH by simp
  next
    case False
    then have sp: "split_on c xs = [xs]" by (rule split_on_no_sep)
    have tw: "takeWhile (\<lambda>x. x \<noteq> c) (rev xs) = rev xs"
      using False by (auto simp: takeWhile_eq_all_conv)
    have app: "takeWhile (\<lambda>x. x \<noteq> c) (rev xs @ [x]) =
        rev xs @ takeWhile (\<lambda>x. x \<noteq> c) [x]"
      using False by (intro takeWhile_append2) auto
    show ?thesis
      using sp by (simp add: app)
  qed
qed

lemma pop_split_on: "pop (split_on c s) = Some (rev (takeWhile (\<lambda>x. x \<noteq> c) (rev s)))"
proof -
  obtain ys y where "split_on c s = ys @ [y]"
    using split_on_not_Nil [of c s] by (metis rev_exhaust)
  then show ?thesis
    using last_split_on [of c s] by (simp add: pop_def)
qed

lemma ext_of_total: "ext_of nm = Inr (toLowerCase (after_last_dot nm))"
  by (simp add: ext_of_def pop_split_on after_last_dot_def)

lemma isImage_kind: "isImage nm = Inr (kind_of_ext (toLowerCase (after_last_dot nm)) = Image)"
  by (simp add: isImage_def ext_of_total kind_of_ext_def)

lemma isVideo_kind: "isVideo nm = Inr (kind_of_ext (toLowerCase (after_last_dot nm)) = Video)"
  by (simp add: isVideo_def ext_of_total kind_of_ext_def)

lemma isMediaFile_kind:
  "isMediaFile nm = Inr (kind_of_ext (toLowerCase (after_last_dot nm)) \<noteq> Other)"
  by (simp add: isMediaFile_def ext_of_total kind_of_ext_def)

lemma kindOf_kind: "kindOf nm = Inr (kind_of_ext (toLowerCase (after_last_dot nm)))"
  by (cases "kind_of_ext (toLowerCase (after_last_dot nm))")
     (simp_all add: kindOf_def isImage_kind isVideo_kind)

lemma lower_char_dot: "lower_char c = CHR ''.'' \<longleftrightarrow> c = CHR ''.''"
  by (simp add: lower_char_def upper_letters_def lower_letters_def)

lemma takeWhile_lower:
  "map lower_char (takeWhile (\<lambda>c. c \<noteq> CHR ''.'') s) =
     takeWhile (\<lambda>c. c \<noteq> CHR ''.'') (map lower_char s)"
  by (induction s) (simp_all add: lower_char_dot)

lemma after_last_dot_lower:
  "toLowerCase (after_last_dot nm) = after_last_dot (toLowerCase nm)"
proof -
  have "map lower_char (rev (takeWhile (\<lambda>c. c \<noteq> CHR ''.'') (rev nm))) =
      rev (map lower_char (takeWhile (\<lambda>c. c \<noteq> CHR ''.'') (rev nm)))"
    by (simp add: rev_map)
  also have "\<dots> = rev (takeWhile (\<lambda>c. c \<noteq> CHR ''.'') (map lower_char (rev nm)))"
    by (simp only: takeWhile_lower)
  also have "\<dots> = rev (takeWhile (\<lambda>c. c \<noteq> CHR ''.'') (rev (map lower_char nm)))"
    by (simp add: rev_map)
  finally show ?thesis
    by (simp add: toLowerCase_def after_last_dot_def)
qed

text \<open>
  Claim C9. The classifier never fails, whatever the name: the three predicates
  of the code always return, and the kind they give is read off the text after
  the last dot of the name (the whole name when it has no dot), in lower case:
  an image for png, jpg, jpeg, webp and gif, a video for mp4, webm and ogv,
  neither for anything else. Two names that differ only in the case of their
  letters get the same kind.
\<close>

theorem kindOf_by_extension:
  "kindOf nm = Inr (kind_of_ext (toLowerCase (after_last_dot nm))) \<and>
   isMediaFile nm = Inr (kind_of_ext (toLowerCase (after_last_dot nm)) \<noteq> Other) \<and>
   (toLowerCase nm = toLowerCase nm' \<longrightarrow> kindOf nm = kindOf nm') \<and>
   kindOf ''A.PNG'' = Inr Image \<and> kindOf ''clip.MP4'' = Inr Video \<and>
   kindOf ''readme'' = Inr Other"
proof -
  have "kindOf nm = kindOf nm'" if "toLowerCase nm = toLowerCase nm'"
    using that by (simp add: kindOf_kind after_last_dot_lower)
  moreover have "kindOf ''A.PNG'' = Inr Image" by code_simp
  moreover have "kindOf ''clip.MP4'' = Inr Video" by code_simp
  moreover have "kindOf ''readme'' = Inr Other" by code_simp
  ultimately show ?thesis
    by (simp add: kindOf_kind isMediaFile_kind)
qed

theorem kindOf_by_extension_witness:
  "toLowerCase ''Clip.WebM'' = toLowerCase ''clip.webm'' \<and>
   kindOf ''Clip.WebM'' = kindOf ''clip.webm'' \<and> kindOf ''Clip.WebM'' = Inr Video"
proof -
  have a: "toLowerCase ''Clip.WebM'' = toLowerCase ''clip.webm''" by code_simp
  have b: "kindOf ''clip.webm'' = Inr Video" by code_simp
  from kindOf_by_extension [of "''Clip.WebM''" "''clip.webm''"] a
  have "kindOf ''Clip.WebM'' = kindOf ''clip.webm''" by blast
  with a b show ?thesis by simp
qed


section \<open>The loops of the media resolver\<close>

lemma poster_loop_first:
  "poster_loop items cs = map_option rawUrl (find (\<lambda>c. c \<in> path ` set items) cs)"
proof (induction cs)
  case Nil
  then show ?case by simp
next
  case (Cons c cs)
  have "find (\<lambda>x. path x = c) items \<noteq> None \<longleftrightarrow> c \<in> path ` set items"
    by (auto simp: find_None_iff)
  with Cons show ?case by simp
qed

lemma direct_loop_eq:
  "direct_loop items rest media =
     Inr (media @ map (direct_item items) (filter is_media_entry rest))"
proof (induction rest arbitrary: media)
  case Nil
  then show ?case by simp
next
  case (Cons it rest)
  show ?case
    by (simp add: Cons.IH isMediaFile_kind isVideo_kind is_media_entry_def direct_item_def
          kind_string_def first_poster_def poster_loop_first)
qed

lemma sub_loop_eq:
  "sub_loop sub media = Inr (media @ map sub_item (filter is_media_entry sub))"
proof (induction sub arbitrary: media)
  case Nil
  then show ?case by simp
next
  case (Cons s rest)
  show ?case
    by (simp add: Cons.IH isMediaFile_kind isVideo_kind is_media_entry_def sub_item_def
          kind_string_def)
qed

lemma ghFetch_loop_sent:
  "\<exists>k. sent (snd (ghFetch_loop net url attempt w)) = sent w @ replicate k url \<and>
       (attempt < 5 \<longrightarrow> 0 < k)"
proof (induction net url attempt w rule: ghFetch_loop.induct)
  case (1 net url attempt w)
  show ?case
  proof (cases "attempt < 5")
    case False
    then have "ghFetch_loop net url attempt w = (Inl Unavailable, w)"
      by (subst ghFetch_loop.simps) simp
    with False show ?thesis by simp
  next
    case lt: True
    show ?thesis
    proof (cases "net (length (sent w)) url")
      case None
      with lt have "ghFetch_loop net url attempt w = (Inl FetchFailed, w\<lparr>sent := sent w @ [url]\<rparr>)"
        by (subst ghFetch_loop.simps) simp
      then have "sent (snd (ghFetch_loop net url attempt w)) = sent w @ replicate 1 url"
        by simp
      then show ?thesis by blast
    next
      case (Some r)
      show ?thesis
      proof (cases "status r = 403 \<or> status r = 429")
        case False
        with lt Some have "sent (snd (ghFetch_loop net url attempt w)) = sent w @ replicate 1 url"
          by (subst ghFetch_loop.simps) simp
        then show ?thesis by blast
      next
        case True
        let ?w1 = "w\<lparr>sent := sent w @ [url], waits := waits w @ [2 ^ (attempt + 1) * 500]\<rparr>"
        from True have ne: "status r \<noteq> 200" by auto
        from lt Some True ne
        have eq: "ghFetch_loop net url attempt w = ghFetch_loop net url (attempt + 1) ?w1"
          by (subst ghFetch_loop.simps) auto
        from "1.IH" [OF lt Some ne True] obtain k where
          "sent (snd (ghFetch_loop net url (attempt + 1) ?w1)) = sent ?w1 @ replicate k url"
          by blast
        then have "sent (snd (ghFetch_loop net url attempt w)) = sent w @ replicate (Suc k) url"
          by (simp add: eq)
        then show ?thesis by blast
      qed
    qed
  qed
qed

lemma ghFetch_sent:
  "\<exists>k. sent (snd (ghFetch net p w)) = sent w @ apiUrl p # replicate k (apiUrl p)"
proof -
  from ghFetch_loop_sent [of net "apiUrl p" 0 w] obtain k where
    k: "sent (snd (ghFetch net p w)) = sent w @ replicate k (apiUrl p)" "0 < k"
    by (auto simp: ghFetch_def)
  then obtain j where "k = Suc j" by (cases k) auto
  with k show ?thesis by auto
qed

lemma set_repeat_subset: "a \<in> S \<Longrightarrow> set xs \<subseteq> S \<Longrightarrow> set (a # replicate k a @ xs) \<subseteq> S"
  by auto

lemma dir_urls_mono:
  "apiUrl ` path ` {d \<in> set rest. is_dir d} \<subseteq> apiUrl ` path ` {d \<in> set (it # rest). is_dir d}"
  by (intro image_mono) auto

lemma dir_urls_head:
  "etype it = ''dir'' \<Longrightarrow> apiUrl (path it) \<in> apiUrl ` path ` {d \<in> set (it # rest). is_dir d}"
  by (intro imageI) (simp add: is_dir_def)

lemma subdirs_loop_sent:
  "\<exists>xs. sent (snd (subdirs_loop net rest media w)) = sent w @ xs \<and>
        set xs \<subseteq> apiUrl ` path ` {d \<in> set rest. is_dir d}"
proof (induction rest arbitrary: media w)
  case Nil
  then show ?case by simp
next
  case (Cons it rest)
  show ?case
  proof (cases "etype it = ''dir''")
    case False
    from Cons.IH [of media w] obtain xs where
      xs: "sent (snd (subdirs_loop net rest media w)) = sent w @ xs"
        "set xs \<subseteq> apiUrl ` path ` {d \<in> set rest. is_dir d}" by blast
    have eq: "sent (snd (subdirs_loop net (it # rest) media w)) = sent w @ xs"
      using False xs(1) by simp
    have sub: "set xs \<subseteq> apiUrl ` path ` {d \<in> set (it # rest). is_dir d}"
      using xs(2) dir_urls_mono by (rule subset_trans)
    show ?thesis
      by (rule exI [of _ xs]) (rule conjI [OF eq sub])
  next
    case True
    obtain r w1 where f: "ghFetch net (path it) w = (r, w1)" by (cases "ghFetch net (path it) w")
    from ghFetch_sent [of net "path it" w] f obtain k where
      k: "sent w1 = sent w @ apiUrl (path it) # replicate k (apiUrl (path it))" by auto
    show ?thesis
    proof (cases r)
      case (Inl e)
      have eq: "sent (snd (subdirs_loop net (it # rest) media w)) =
          sent w @ (apiUrl (path it) # replicate k (apiUrl (path it)) @ [])"
        using True f Inl k by simp
      have sub: "set (apiUrl (path it) # replicate k (apiUrl (path it)) @ [])
          \<subseteq> apiUrl ` path ` {d \<in> set (it # rest). is_dir d}"
        by (rule set_repeat_subset [OF dir_urls_head [OF True]]) simp
      show ?thesis
        by (rule exI [of _ "apiUrl (path it) # replicate k (apiUrl (path it)) @ []"])
           (rule conjI [OF eq sub])
    next
      case (Inr sub)
      from Cons.IH [of "media @ map sub_item (filter is_media_entry sub)" w1]
      obtain xs where xs:
        "sent (snd (subdirs_loop net rest (media @ map sub_item (filter is_media_entry sub)) w1)) =
           sent w1 @ xs"
        "set xs \<subseteq> apiUrl ` path ` {d \<in> set rest. is_dir d}" by blast
      have eq: "sent (snd (subdirs_loop net (it # rest) media w)) =
          sent w @ (apiUrl (path it) # replicate k (apiUrl (path it)) @ xs)"
        using True f Inr xs(1) k by (simp add: sub_loop_eq)
      have "set xs \<subseteq> apiUrl ` path ` {d \<in> set (it # rest). is_dir d}"
        using xs(2) dir_urls_mono by (rule subset_trans)
      then have sub: "set (apiUrl (path it) # replicate k (apiUrl (path it)) @ xs)
          \<subseteq> apiUrl ` path ` {d \<in> set (it # rest). is_dir d}"
        by (rule set_repeat_subset [OF dir_urls_head [OF True]])
      show ?thesis
        by (rule exI [of _ "apiUrl (path it) # replicate k (apiUrl (path it)) @ xs"])
           (rule conjI [OF eq sub])
    qed
  qed
qed

lemma subdirs_loop_eq:
  "\<forall>d\<in>set rest. is_dir d \<longrightarrow> lists net (path d) (tree (path d)) \<Longrightarrow>
   fst (subdirs_loop net rest media w) =
     Inr (media @ concat (map (\<lambda>d. map sub_item (filter is_media_entry (tree (path d))))
                            (filter is_dir rest)))"
proof (induction rest arbitrary: media w)
  case Nil
  then show ?case by simp
next
  case (Cons it rest)
  from Cons.prems have rest: "\<forall>d\<in>set rest. is_dir d \<longrightarrow> lists net (path d) (tree (path d))"
    by simp
  show ?case
  proof (cases "etype it = ''dir''")
    case False
    with Cons.IH [OF rest] show ?thesis by (simp add: is_dir_def)
  next
    case True
    with Cons.prems have "lists net (path it) (tree (path it))" by (simp add: is_dir_def)
    then have "fst (ghFetch net (path it) w) = Inr (tree (path it))"
      by (simp add: lists_def)
    then obtain w1 where f: "ghFetch net (path it) w = (Inr (tree (path it)), w1)"
      by (cases "ghFetch net (path it) w") auto
    show ?thesis
      using True f Cons.IH [OF rest] by (simp add: sub_loop_eq is_dir_def)
  qed
qed

section \<open>The media resolver on a repository tree\<close>

lemma keyOf_id [simp]: "keyOf p = p"
  by (simp add: keyOf_def)

lemma apiUrl_inj [simp]: "apiUrl p = apiUrl q \<longleftrightarrow> p = q"
  by (simp add: apiUrl_def)

lemma map_of_apiUrl:
  "map_of (map (\<lambda>(q, l). (apiUrl q, l)) tbl) (apiUrl p) = map_of tbl p"
  by (induction tbl) auto

lemma static_net_lists: "lists (static_net tbl) q (tree_of tbl q)"
proof -
  have "fst (ghFetch (static_net tbl) q w) = Inr (tree_of tbl q)" for w
  proof (cases "map_of tbl q")
    case None
    then have "static_net tbl (length (sent w)) (apiUrl q) =
        Some \<lparr>status = 404, body = [], text_of = ''Not Found''\<rparr>"
      by (simp add: static_net_def map_of_apiUrl)
    with None show ?thesis
      by (simp add: ghFetch_def tree_of_def
            ghFetch_loop_answer [where r = "\<lparr>status = 404, body = [], text_of = ''Not Found''\<rparr>"])
  next
    case (Some l)
    then have "static_net tbl (length (sent w)) (apiUrl q) =
        Some \<lparr>status = 200, body = l, text_of = []\<rparr>"
      by (simp add: static_net_def map_of_apiUrl)
    with Some show ?thesis
      by (simp add: ghFetch_def tree_of_def
            ghFetch_loop_answer [where r = "\<lparr>status = 200, body = l, text_of = []\<rparr>"])
  qed
  then show ?thesis by (simp add: lists_def)
qed

lemma gather_lists:
  assumes "lists net p (tree p)"
    and "\<forall>d\<in>set (tree p). is_dir d \<longrightarrow> lists net (path d) (tree (path d))"
  shows "fst (gather net p w) = Inr (media_set tree p)"
proof -
  from assms(1) have "fst (ghFetch net p w) = Inr (tree p)" by (simp add: lists_def)
  then obtain w1 where f: "ghFetch net p w = (Inr (tree p), w1)"
    by (cases "ghFetch net p w") auto
  have "fst (gather net p w) = fst (subdirs_loop net (tree p)
      (map (direct_item (tree p)) (filter is_media_entry (tree p))) w1)"
    by (simp add: gather_def f direct_loop_eq)
  also have "\<dots> = Inr (media_set tree p)"
    by (simp add: subdirs_loop_eq [OF assms(2)] media_set_def)
  finally show ?thesis .
qed


lemma gather_sent_lists:
  assumes "lists net p (tree p)"
  shows "set (sent (snd (gather net p w))) \<subseteq>
           set (sent w) \<union> {apiUrl p} \<union> apiUrl ` path ` {d \<in> set (tree p). is_dir d}"
proof -
  from assms have "fst (ghFetch net p w) = Inr (tree p)" by (simp add: lists_def)
  then obtain w1 where f: "ghFetch net p w = (Inr (tree p), w1)"
    by (cases "ghFetch net p w") auto
  from ghFetch_sent [of net p w] f obtain k where
    k: "sent w1 = sent w @ apiUrl p # replicate k (apiUrl p)" by auto
  from subdirs_loop_sent [of net "tree p" "map (direct_item (tree p)) (filter is_media_entry (tree p))" w1]
  obtain xs where xs:
    "sent (snd (subdirs_loop net (tree p) (map (direct_item (tree p)) (filter is_media_entry (tree p))) w1)) =
       sent w1 @ xs"
    "set xs \<subseteq> apiUrl ` path ` {d \<in> set (tree p). is_dir d}" by blast
  have "sent (snd (gather net p w)) = sent w @ apiUrl p # replicate k (apiUrl p) @ xs"
    using f xs(1) k by (simp add: gather_def direct_loop_eq)
  then have "set (sent (snd (gather net p w))) = set (sent w) \<union> {apiUrl p} \<union> set xs"
    by auto
  with xs(2) show ?thesis by blast
qed

lemma mediaCache_begin [simp]: "mediaCache (showMedia_begin p pg) = mediaCache pg"
  by (simp add: showMedia_begin_def)

lemma showMediaForPath_miss:
  assumes "mediaCache pg p = None"
  shows "showMediaForPath net man p (pg, w) =
     (case collectMedia net man p w of
        (Inl e, w1) \<Rightarrow> (Some e, showMedia_begin p pg, w1)
      | (Inr media, w1) \<Rightarrow> (None, showMedia_finish p media (showMedia_begin p pg), w1))"
  using assms by (simp add: showMediaForPath_def Let_def)


lemma allVisibleMedia_finish [simp]: "allVisibleMedia (showMedia_finish k m pg) = m"
  by (simp add: showMedia_finish_def renderGallery_def Let_def)

lemma mediaCache_finish [simp]: "mediaCache (showMedia_finish k m pg) = (mediaCache pg)(k \<mapsto> m)"
  by (simp add: showMedia_finish_def renderGallery_def Let_def)

lemma galleryEl_finish [simp]:
  "galleryEl (showMedia_finish k m pg) = (if m = [] then NoMedia else Cards (map card_of m))"
  by (simp add: showMedia_finish_def renderGallery_def Let_def)

lemma cache_finish [simp]: "cache (showMedia_finish k m pg) = cache pg"
  by (simp add: showMedia_finish_def renderGallery_def Let_def)

lemma currentPath_finish [simp]: "currentPath (showMedia_finish k m pg) = currentPath pg"
  by (simp add: showMedia_finish_def renderGallery_def Let_def)

text \<open>
  Claim C7. On a path that is not in the media cache, with a remote client that
  lists the folder and each of its subfolders, and when the folder or a subfolder
  holds a media file: \<open>showMediaForPath\<close> shows, keeps as the search list and
  stores under the path exactly the media files of the folder, in the order of
  its listing, followed by the media files of each subfolder, subfolder after
  subfolder in the order of the listing. Only the listing of the folder and of
  its immediate subfolders is used, and no request is sent for any other path.
\<close>

theorem showMediaForPath_one_level:
  assumes "mediaCache pg p = None"
    and "lists net p (tree p)"
    and "\<forall>d\<in>set (tree p). is_dir d \<longrightarrow> lists net (path d) (tree (path d))"
    and "media_set tree p \<noteq> []"
  shows "fst (showMediaForPath net man p (pg, w)) = None \<and>
         allVisibleMedia (fst (snd (showMediaForPath net man p (pg, w)))) = media_set tree p \<and>
         mediaCache (fst (snd (showMediaForPath net man p (pg, w)))) p = Some (media_set tree p) \<and>
         galleryEl (fst (snd (showMediaForPath net man p (pg, w)))) =
           Cards (map card_of (media_set tree p)) \<and>
         set (sent (snd (snd (showMediaForPath net man p (pg, w))))) \<subseteq>
           set (sent w) \<union> {apiUrl p} \<union> apiUrl ` path ` {d \<in> set (tree p). is_dir d}"
proof -
  obtain w2 where g: "gather net p w = (Inr (media_set tree p), w2)"
    using gather_lists [where tree = tree and p = p and net = net and w = w, OF assms(2,3)]
    by (cases "gather net p w") auto
  have c: "collectMedia net man p w = (Inr (media_set tree p), w2)"
    using g assms(4) by (simp add: collectMedia_def)
  have s: "showMediaForPath net man p (pg, w) =
      (None, showMedia_finish p (media_set tree p) (showMedia_begin p pg), w2)"
    by (simp add: showMediaForPath_miss [OF assms(1)] c)
  have "set (sent w2) \<subseteq>
      set (sent w) \<union> {apiUrl p} \<union> apiUrl ` path ` {d \<in> set (tree p). is_dir d}"
    using gather_sent_lists [where tree = tree and p = p and net = net and w = w, OF assms(2)] g
    by simp
  then show ?thesis
    using assms(4) by (simp add: s)
qed



lemma media_set_repo1:
  "media_set (tree_of repo1) '''' =
     [\<lparr>m_name = ''a.png'', m_path = ''a.png'', m_type = ''image'', src = rawUrl ''a.png'',
       poster = Some (rawUrl ''a.png'')\<rparr>,
      \<lparr>m_name = ''b.png'', m_path = ''sub/b.png'', m_type = ''image'', src = rawUrl ''sub/b.png'',
       poster = None\<rparr>]"
  by code_simp

theorem showMediaForPath_one_level_witness:
  "mediaCache pg0 '''' = None \<and>
   lists (static_net repo1) '''' (tree_of repo1 '''') \<and>
   filter is_dir (tree_of repo1 '''') = [sub_dir] \<and>
   lists (static_net repo1) (path sub_dir) (tree_of repo1 (path sub_dir)) \<and>
   media_set (tree_of repo1) '''' \<noteq> [] \<and>
   allVisibleMedia (fst (snd (showMediaForPath (static_net repo1) man0 '''' (pg0, w0)))) =
     [\<lparr>m_name = ''a.png'', m_path = ''a.png'', m_type = ''image'', src = rawUrl ''a.png'',
       poster = Some (rawUrl ''a.png'')\<rparr>,
      \<lparr>m_name = ''b.png'', m_path = ''sub/b.png'', m_type = ''image'', src = rawUrl ''sub/b.png'',
       poster = None\<rparr>]"
proof -
  have a: "mediaCache pg0 '''' = None" by (simp add: pg0_def)
  have b: "lists (static_net repo1) '''' (tree_of repo1 '''')" by (rule static_net_lists)
  have c: "\<forall>d\<in>set (tree_of repo1 ''''). is_dir d \<longrightarrow>
      lists (static_net repo1) (path d) (tree_of repo1 (path d))"
    by (simp add: static_net_lists)
  have d: "media_set (tree_of repo1) '''' \<noteq> []" by (simp add: media_set_repo1)
  have e: "filter is_dir (tree_of repo1 '''') = [sub_dir]" by code_simp
  from showMediaForPath_one_level [where tree = "tree_of repo1" and man = man0 and w = w0, OF a b c d]
    a b d e static_net_lists [of repo1 "path sub_dir"] show ?thesis
    by (simp add: media_set_repo1)
qed

lemma collectMedia_empty:
  "gather net p w = (Inr [], w2) \<Longrightarrow>
   collectMedia net man p w =
     (Inr (case man (length (sent w2)) of None \<Rightarrow> [] | Some demo \<Rightarrow> demo),
      w2\<lparr>sent := sent w2 @ [manifestUrl]\<rparr>)"
  by (simp add: collectMedia_def)

text \<open>
  Claim C8. On a path that is not in the media cache, when the request for the
  listing and the two loops end with an empty list, \<open>showMediaForPath\<close> sends one
  more request, for the manifest, and shows, keeps as the search list and stores
  under the path the records of the manifest as they are and in their order; when
  the manifest cannot be loaded the list is empty, and no error is raised.
\<close>

theorem showMediaForPath_fallback:
  assumes "mediaCache pg p = None" and "fst (gather net p w) = Inr []"
  shows "fst (showMediaForPath net man p (pg, w)) = None \<and>
         sent (snd (snd (showMediaForPath net man p (pg, w)))) =
           sent (snd (gather net p w)) @ [manifestUrl] \<and>
         allVisibleMedia (fst (snd (showMediaForPath net man p (pg, w)))) =
           (case man (length (sent (snd (gather net p w)))) of None \<Rightarrow> [] | Some demo \<Rightarrow> demo) \<and>
         mediaCache (fst (snd (showMediaForPath net man p (pg, w)))) p =
           Some (case man (length (sent (snd (gather net p w)))) of
                   None \<Rightarrow> [] | Some demo \<Rightarrow> demo)"
proof -
  obtain w2 where g: "gather net p w = (Inr [], w2)"
    using assms(2) by (cases "gather net p w") auto
  show ?thesis
    by (simp add: showMediaForPath_miss [OF assms(1)] collectMedia_empty [OF g] g)
qed

lemma gather_repo2: "fst (gather (static_net repo2) ''docs'' w) = Inr []"
proof -
  have "media_set (tree_of repo2) ''docs'' = []" by code_simp
  moreover have "\<forall>d\<in>set (tree_of repo2 ''docs''). is_dir d \<longrightarrow>
      lists (static_net repo2) (path d) (tree_of repo2 (path d))"
    by (simp add: static_net_lists)
  ultimately show ?thesis
    using gather_lists [where tree = "tree_of repo2" and net = "static_net repo2"
        and p = "''docs''" and w = w, OF static_net_lists]
    by simp
qed

lemma gather_repo2_sent:
  "sent (snd (gather (static_net repo2) ''docs'' w0)) = [apiUrl ''docs'', apiUrl ''docs/old'']"
  by code_simp

theorem showMediaForPath_fallback_witness:
  "mediaCache pg0 ''docs'' = None \<and>
   fst (gather (static_net repo2) ''docs'' w0) = Inr [] \<and>
   allVisibleMedia (fst (snd (showMediaForPath (static_net repo2) man1 ''docs'' (pg0, w0)))) =
     [demo_item, demo_clip] \<and>
   allVisibleMedia (fst (snd (showMediaForPath (static_net repo2) man0 ''docs'' (pg0, w0)))) = [] \<and>
   sent (snd (snd (showMediaForPath (static_net repo2) man1 ''docs'' (pg0, w0)))) =
     [apiUrl ''docs'', apiUrl ''docs/old'', manifestUrl]"
proof -
  have a: "mediaCache pg0 ''docs'' = None" by (simp add: pg0_def)
  have b: "fst (gather (static_net repo2) ''docs'' w0) = Inr []" by (rule gather_repo2)
  from showMediaForPath_fallback [OF a b, of man1] showMediaForPath_fallback [OF a b, of man0] a b
  show ?thesis
    by (simp add: man1_def man0_def gather_repo2_sent)
qed

section \<open>Posters\<close>

lemma subdirs_loop_posters:
  "fst (subdirs_loop net rest media w) = Inr ms \<Longrightarrow>
   \<exists>subs. ms = media @ subs \<and> (\<forall>m\<in>set subs. poster m = None)"
proof (induction rest arbitrary: media w)
  case Nil
  then show ?case by simp
next
  case (Cons it rest)
  show ?case
  proof (cases "etype it = ''dir''")
    case False
    with Cons.prems have "fst (subdirs_loop net rest media w) = Inr ms" by simp
    from Cons.IH [OF this] show ?thesis .
  next
    case True
    obtain r w1 where f: "ghFetch net (path it) w = (r, w1)" by (cases "ghFetch net (path it) w")
    show ?thesis
    proof (cases r)
      case (Inl e)
      with True f Cons.prems show ?thesis by simp
    next
      case (Inr sub)
      with True f Cons.prems
      have "fst (subdirs_loop net rest (media @ map sub_item (filter is_media_entry sub)) w1) = Inr ms"
        by (simp add: sub_loop_eq)
      from Cons.IH [OF this] obtain subs where
        subs: "ms = (media @ map sub_item (filter is_media_entry sub)) @ subs"
          "\<forall>m\<in>set subs. poster m = None" by blast
      have "\<forall>m\<in>set (map sub_item (filter is_media_entry sub) @ subs). poster m = None"
        using subs(2) by (auto simp: sub_item_def)
      with subs(1) show ?thesis by (intro exI [of _ "map sub_item (filter is_media_entry sub) @ subs"]) simp
    qed
  qed
qed

text \<open>
  Claim C3, as amended. Every item that \<open>showMediaForPath\<close> builds from a file of
  the listing of the path itself, image or video alike, has as its poster the URL
  of the first candidate, in the order jpg, jpeg, webp, png, that is the path of
  some element of that listing, and no poster when no candidate is such a path.
  Every item built from the listing of a subfolder has no poster.
\<close>

theorem poster_of_gathered_items:
  assumes "ghFetch net p w = (Inr items, w1)" and "fst (gather net p w) = Inr ms"
  shows "\<exists>subs.
           ms = map (\<lambda>it. \<lparr>m_name = name it, m_path = path it, m_type = kind_string (name it),
                           src = rawUrl (path it),
                           poster = map_option rawUrl
                             (find (\<lambda>c. c \<in> path ` set items) (posterCandidates it))\<rparr>)
                  (filter is_media_entry items) @ subs \<and>
           (\<forall>m\<in>set subs. poster m = None)"
proof -
  have "fst (gather net p w) =
      fst (subdirs_loop net items (map (direct_item items) (filter is_media_entry items)) w1)"
    by (simp add: gather_def assms(1) direct_loop_eq)
  with assms(2) have "fst (subdirs_loop net items
      (map (direct_item items) (filter is_media_entry items)) w1) = Inr ms" by simp
  from subdirs_loop_posters [OF this] obtain subs where
    "ms = map (direct_item items) (filter is_media_entry items) @ subs"
    "\<forall>m\<in>set subs. poster m = None" by blast
  then show ?thesis
    by (intro exI [of _ subs]) (simp add: direct_item_def first_poster_def)
qed

lemma gather_repo3:
  "gather (static_net repo3) '''' w0 =
     (Inr [\<lparr>m_name = ''a.png'', m_path = ''a.png'', m_type = ''image'', src = rawUrl ''a.png'',
            poster = Some (rawUrl ''a.png'')\<rparr>],
      \<lparr>sent = [apiUrl ''''], waits = [], console = []\<rparr>)"
  by code_simp

text \<open>
  Claim C3 as stated fails: on a listing that holds the single file a.png, the item
  is an image and its poster is set, to the URL of a.png itself, since the last
  candidate is the path of the file.
\<close>

theorem image_item_has_poster:
  "fst (gather (static_net repo3) '''' w0) =
     Inr [\<lparr>m_name = ''a.png'', m_path = ''a.png'', m_type = ''image'', src = rawUrl ''a.png'',
           poster = Some (rawUrl ''a.png'')\<rparr>]"
  by code_simp

lemma ghFetch_repo3:
  "ghFetch (static_net repo3) '''' w0 = (Inr [a_png], \<lparr>sent = [apiUrl ''''], waits = [], console = []\<rparr>)"
  by code_simp

theorem poster_of_gathered_items_witness:
  "ghFetch (static_net repo3) '''' w0 =
     (Inr [a_png], \<lparr>sent = [apiUrl ''''], waits = [], console = []\<rparr>) \<and>
   (\<exists>subs.
      [\<lparr>m_name = ''a.png'', m_path = ''a.png'', m_type = ''image'', src = rawUrl ''a.png'',
        poster = Some (rawUrl ''a.png'')\<rparr>] =
      map (\<lambda>it. \<lparr>m_name = name it, m_path = path it, m_type = kind_string (name it),
                   src = rawUrl (path it),
                   poster = map_option rawUrl
                     (find (\<lambda>c. c \<in> path ` set [a_png]) (posterCandidates it))\<rparr>)
        (filter is_media_entry [a_png]) @ subs \<and>
      (\<forall>m\<in>set subs. poster m = None))"
proof -
  have g: "fst (gather (static_net repo3) '''' w0) =
     Inr [\<lparr>m_name = ''a.png'', m_path = ''a.png'', m_type = ''image'', src = rawUrl ''a.png'',
           poster = Some (rawUrl ''a.png'')\<rparr>]"
    by (simp add: gather_repo3)
  from poster_of_gathered_items [OF ghFetch_repo3 g] ghFetch_repo3 show ?thesis by blast
qed


lemma find_first_at:
  "k < length cs \<Longrightarrow> P (cs ! k) \<Longrightarrow> \<forall>j<k. \<not> P (cs ! j) \<Longrightarrow> find P cs = Some (cs ! k)"
  by (auto simp: find_Some_iff)

lemma length_posterCandidates [simp]: "length (posterCandidates it) = 4"
  by (simp add: posterCandidates_def)

text \<open>
  Claim C10, as amended. The poster loop does not look at the type of the element
  whose path equals a candidate: when an element of type dir has the path of a
  candidate of a media file of the listing, and no element of the listing has the
  path of an earlier candidate in the order jpg, jpeg, webp, png, the poster of
  the item is the raw-content URL of that folder.
\<close>

theorem poster_accepts_directory:
  assumes "it \<in> set items" and "is_media_entry it"
    and "d \<in> set items" and "etype d = ''dir''"
    and "k < 4" and "path d = posterCandidates it ! k"
    and "\<forall>j<k. posterCandidates it ! j \<notin> path ` set items"
  shows "\<exists>ms. direct_loop items items [] = Inr ms \<and>
              \<lparr>m_name = name it, m_path = path it, m_type = kind_string (name it),
               src = rawUrl (path it), poster = Some (rawUrl (path d))\<rparr> \<in> set ms"
proof -
  have "find (\<lambda>c. c \<in> path ` set items) (posterCandidates it) = Some (posterCandidates it ! k)"
  proof (rule find_first_at)
    show "k < length (posterCandidates it)" using assms(5) by simp
    show "posterCandidates it ! k \<in> path ` set items"
      using assms(3,6) by (metis imageI)
    show "\<forall>j<k. \<not> posterCandidates it ! j \<in> path ` set items"
      using assms(7) by simp
  qed
  then have "direct_item items it =
      \<lparr>m_name = name it, m_path = path it, m_type = kind_string (name it),
       src = rawUrl (path it), poster = Some (rawUrl (path d))\<rparr>"
    by (simp add: direct_item_def first_poster_def assms(6))
  moreover have "direct_item items it \<in> set (map (direct_item items) (filter is_media_entry items))"
    using assms(1,2) by simp
  ultimately show ?thesis
    by (simp add: direct_loop_eq)
qed

text \<open>
  Claim C10 as stated fails for the later candidates: with the files clip.mp4 and
  clip.jpg and a folder clip.png, the folder has the path of the fourth candidate
  of clip.mp4, and the poster of the video is the URL of clip.jpg.
\<close>

theorem directory_poster_shadowed:
  "direct_loop [clip_mp4, clip_jpg, clip_png_dir] [clip_mp4, clip_jpg, clip_png_dir] [] =
     Inr [\<lparr>m_name = ''clip.mp4'', m_path = ''clip.mp4'', m_type = ''video'',
            src = rawUrl ''clip.mp4'', poster = Some (rawUrl ''clip.jpg'')\<rparr>,
          \<lparr>m_name = ''clip.jpg'', m_path = ''clip.jpg'', m_type = ''image'',
            src = rawUrl ''clip.jpg'', poster = Some (rawUrl ''clip.jpg'')\<rparr>] \<and>
   etype clip_png_dir = ''dir'' \<and>
   path clip_png_dir = posterCandidates clip_mp4 ! 3 \<and>
   rawUrl ''clip.jpg'' \<noteq> rawUrl (path clip_png_dir)"
  by code_simp

theorem poster_accepts_directory_witness:
  "clip_mp4 \<in> set [clip_mp4, clip_png_dir] \<and> is_media_entry clip_mp4 \<and>
   clip_png_dir \<in> set [clip_mp4, clip_png_dir] \<and> etype clip_png_dir = ''dir'' \<and>
   (3::nat) < 4 \<and> path clip_png_dir = posterCandidates clip_mp4 ! 3 \<and>
   (\<exists>ms. direct_loop [clip_mp4, clip_png_dir] [clip_mp4, clip_png_dir] [] = Inr ms \<and>
         \<lparr>m_name = ''clip.mp4'', m_path = ''clip.mp4'', m_type = ''video'',
          src = rawUrl ''clip.mp4'', poster = Some (rawUrl ''clip.png'')\<rparr> \<in> set ms)"
proof -
  have a: "clip_mp4 \<in> set [clip_mp4, clip_png_dir]" by simp
  have b: "is_media_entry clip_mp4" by code_simp
  have c: "clip_png_dir \<in> set [clip_mp4, clip_png_dir]" by simp
  have d: "etype clip_png_dir = ''dir''" by (simp add: clip_png_dir_def)
  have e: "path clip_png_dir = posterCandidates clip_mp4 ! 3" by code_simp
  have f: "\<forall>j<3. posterCandidates clip_mp4 ! j \<notin> path ` set [clip_mp4, clip_png_dir]"
    by code_simp
  have g: "kind_string (name clip_mp4) = ''video''" by code_simp
  have h: "name clip_mp4 = ''clip.mp4'' \<and> path clip_mp4 = ''clip.mp4'' \<and> path clip_png_dir = ''clip.png''"
    by (simp add: clip_mp4_def clip_png_dir_def)
  from poster_accepts_directory [OF a b c d _ e f] a b c d e g h
  show ?thesis by simp
qed

section \<open>The two caches\<close>


lemma cache_begin [simp]: "cache (showMedia_begin p pg) = cache pg"
  by (simp add: showMedia_begin_def)

lemma cache_renderGallery [simp]: "cache (renderGallery m pg) = cache pg"
  by (simp add: renderGallery_def Let_def)


text \<open>The listing cache is the memo of \<open>loadAndRenderDir\<close>: a path it holds is
  rendered without a request, and a listing that has been fetched is stored.\<close>

lemma loadAndRenderDir_cached:
  "cache pg p = Some l \<Longrightarrow>
   loadAndRenderDir le net p container (pg, w) =
     (fst (renderDirListing le l), snd (renderDirListing le l), pg, w)"
  by (simp add: loadAndRenderDir_def)

lemma loadAndRenderDir_stores:
  "cache pg p = None \<Longrightarrow> ghFetch net p w = (Inr items, w1) \<Longrightarrow>
   cache (fst (snd (snd (loadAndRenderDir le net p container (pg, w))))) p = Some items"
  by (simp add: loadAndRenderDir_def)








section \<open>Interleaved resolutions and the search box\<close>

lemma step_Select_miss:
  "mediaCache (view s) p = None \<Longrightarrow>
   step s (Select p) = s\<lparr>view := showMedia_begin p (view s), inflight := inflight s @ [p]\<rparr>"
  by (simp add: Let_def)

text \<open>A call that runs without interruption is the selection followed at once by
  its own completion.\<close>

lemma showMediaForPath_as_events:
  assumes "mediaCache pg p = None" and "collectMedia net man p w = (Inr media, w1)"
  shows "view (run \<lparr>view = pg, inflight = []\<rparr> [Select p, Complete 0 media]) =
           fst (snd (showMediaForPath net man p (pg, w)))"
  using assms by (simp add: run_def showMediaForPath_miss Let_def)

text \<open>
  Claim C1, as amended. When a resolution for \<open>p1\<close> is started, then one for \<open>p2\<close>,
  both missing the media cache, and the one for \<open>p2\<close> completes before the one for
  \<open>p1\<close>, the gallery and the search list hold the result for \<open>p1\<close>, the resolution
  that completed last, while the path shown is \<open>p2\<close>: nothing in the page discards
  the result of a resolution that is no longer the selected one.
\<close>

theorem last_completion_wins:
  assumes "mediaCache (view s) p1 = None" and "mediaCache (view s) p2 = None"
  shows "allVisibleMedia (view (run s [Select p1, Select p2,
            Complete (Suc (length (inflight s))) m2, Complete (length (inflight s)) m1])) = m1 \<and>
         galleryEl (view (run s [Select p1, Select p2,
            Complete (Suc (length (inflight s))) m2, Complete (length (inflight s)) m1])) =
           (if m1 = [] then NoMedia else Cards (map card_of m1)) \<and>
         currentPath (view (run s [Select p1, Select p2,
            Complete (Suc (length (inflight s))) m2, Complete (length (inflight s)) m1])) =
           ''/'' @ p2 \<and>
         mediaCache (view (run s [Select p1, Select p2,
            Complete (Suc (length (inflight s))) m2, Complete (length (inflight s)) m1])) p1 =
           Some m1 \<and>
         mediaCache (view (run s [Select p1, Select p2,
            Complete (Suc (length (inflight s))) m2, Complete (length (inflight s)) m1])) p2 =
           Some (if p1 = p2 then m1 else m2) \<and>
         inflight (run s [Select p1, Select p2,
            Complete (Suc (length (inflight s))) m2, Complete (length (inflight s)) m1]) =
           inflight s"
proof -
  let ?n = "length (inflight s)"
  define t1 where "t1 = s\<lparr>view := showMedia_begin p1 (view s), inflight := inflight s @ [p1]\<rparr>"
  define t2 where "t2 = s\<lparr>view := showMedia_begin p2 (showMedia_begin p1 (view s)),
                          inflight := inflight s @ [p1, p2]\<rparr>"
  define t3 where "t3 = s\<lparr>view := showMedia_finish p2 m2
                                    (showMedia_begin p2 (showMedia_begin p1 (view s))),
                          inflight := inflight s @ [p1]\<rparr>"
  define t4 where "t4 = s\<lparr>view := showMedia_finish p1 m1 (showMedia_finish p2 m2
                                    (showMedia_begin p2 (showMedia_begin p1 (view s)))),
                          inflight := inflight s\<rparr>"
  have s1: "step s (Select p1) = t1"
    using assms(1) by (simp add: step_Select_miss t1_def)
  have "mediaCache (view t1) p2 = None"
    using assms(2) by (simp add: t1_def)
  then have s2: "step t1 (Select p2) = t2"
    by (simp add: step_Select_miss t1_def t2_def)
  have s3: "step t2 (Complete (Suc ?n) m2) = t3"
    by (simp add: t2_def t3_def nth_append)
  have s4: "step t3 (Complete ?n m1) = t4"
    by (simp add: t3_def t4_def nth_append)
  have r: "run s [Select p1, Select p2, Complete (Suc ?n) m2, Complete ?n m1] =
      step (step (step (step s (Select p1)) (Select p2)) (Complete (Suc ?n) m2)) (Complete ?n m1)"
    by (simp only: run_def foldl.simps)
  show ?thesis
    unfolding r s1 s2 s3 s4 by (simp add: t4_def showMedia_begin_def)
qed

theorem last_completion_wins_witness:
  "mediaCache (view s0) ''a'' = None \<and> mediaCache (view s0) ''b'' = None \<and>
   allVisibleMedia (view (run s0 [Select ''a'', Select ''b'', Complete 1 media_b,
     Complete 0 media_a])) = media_a"
proof -
  have a: "mediaCache (view s0) ''a'' = None" by (simp add: s0_def pg0_def)
  have b: "mediaCache (view s0) ''b'' = None" by (simp add: s0_def pg0_def)
  have n: "length (inflight s0) = 0" by (simp add: s0_def)
  from last_completion_wins [OF a b, of media_b media_a] a b show ?thesis
    by (simp add: n)
qed

text \<open>
  Claim C1 as stated fails: folder a is selected, then folder b; the resolution
  for b completes first, the one for a last. The gallery and the search list then
  hold the picture of a, under the path of b.
\<close>

theorem stale_resolution_overwrites:
  "fst (collectMedia (static_net repo4) man0 ''a'' w0) = Inr media_a \<and>
   fst (collectMedia (static_net repo4) man0 ''b'' w0) = Inr media_b \<and>
   allVisibleMedia (view (run s0 [Select ''a'', Select ''b'', Complete 1 media_b,
     Complete 0 media_a])) = media_a \<and>
   galleryEl (view (run s0 [Select ''a'', Select ''b'', Complete 1 media_b,
     Complete 0 media_a])) = Cards (map card_of media_a) \<and>
   currentPath (view (run s0 [Select ''a'', Select ''b'', Complete 1 media_b,
     Complete 0 media_a])) = ''/b'' \<and>
   media_a \<noteq> media_b"
  by code_simp

text \<open>What the handler of the search box does to the page: it filters the list
  that is the search list at that moment, shows the result and stores it as the
  new search list; it leaves both caches as they are.\<close>

lemma starts_with_iff: "starts_with s q \<longleftrightarrow> (\<exists>suf. s = q @ suf)"
  by (induction s q rule: starts_with.induct) auto

lemma includes_str_iff: "includes_str s q \<longleftrightarrow> (\<exists>pre suf. s = pre @ q @ suf)"
proof (induction s)
  case Nil
  then show ?case by auto
next
  case (Cons c cs)
  show ?case
  proof
    assume "includes_str (c # cs) q"
    then consider "starts_with (c # cs) q" | "includes_str cs q" by auto
    then show "\<exists>pre suf. c # cs = pre @ q @ suf"
    proof cases
      case 1
      then obtain suf where "c # cs = q @ suf" by (auto simp: starts_with_iff)
      then have "c # cs = [] @ q @ suf" by simp
      then show ?thesis by blast
    next
      case 2
      with Cons.IH obtain pre suf where "cs = pre @ q @ suf" by blast
      then have "c # cs = (c # pre) @ q @ suf" by simp
      then show ?thesis by blast
    qed
  next
    assume "\<exists>pre suf. c # cs = pre @ q @ suf"
    then obtain pre suf where eq: "c # cs = pre @ q @ suf" by blast
    show "includes_str (c # cs) q"
    proof (cases pre)
      case Nil
      with eq have "starts_with (c # cs) q" by (auto simp: starts_with_iff)
      then show ?thesis by simp
    next
      case (Cons d pre')
      with eq have "cs = pre' @ q @ suf" by simp
      with Cons.IH have "includes_str cs q" by blast
      then show ?thesis by simp
    qed
  qed
qed

lemma searchInput_filters:
  "allVisibleMedia (searchInput v pg) =
     (if toLowerCase (trim v) = [] then allVisibleMedia pg
      else filter (\<lambda>item. \<exists>pre suf. toLowerCase (m_name item) = pre @ toLowerCase (trim v) @ suf)
             (allVisibleMedia pg)) \<and>
   galleryEl (searchInput v pg) =
     (if allVisibleMedia (searchInput v pg) = [] then NoMedia
      else Cards (map card_of (allVisibleMedia (searchInput v pg)))) \<and>
   cache (searchInput v pg) = cache pg \<and> mediaCache (searchInput v pg) = mediaCache pg"
  by (simp add: searchInput_def renderGallery_def Let_def includes_str_iff)

text \<open>
  Claim C2 at its own example. With the base list of cat.png and dog.mp4, the query
  do shows dog.mp4 alone, and \<open>renderGallery\<close> stores the filtered list as the new
  search list; the empty query that follows shows dog.mp4 alone again, where the
  claim has both items restored.
\<close>

theorem searchInput_narrows_base:
  "allVisibleMedia (renderGallery [cat_png, dog_mp4] pg0) = [cat_png, dog_mp4] \<and>
   galleryEl (searchInput ''do'' (renderGallery [cat_png, dog_mp4] pg0)) = Cards [card_of dog_mp4] \<and>
   allVisibleMedia (searchInput ''do'' (renderGallery [cat_png, dog_mp4] pg0)) = [dog_mp4] \<and>
   galleryEl (searchInput '''' (searchInput ''do'' (renderGallery [cat_png, dog_mp4] pg0))) =
     Cards [card_of dog_mp4] \<and>
   allVisibleMedia (searchInput '''' (searchInput ''do'' (renderGallery [cat_png, dog_mp4] pg0))) =
     [dog_mp4]"
  by code_simp

end
